theory Spec2Isabelle
  imports Main "HOL-Library.Word"
begin

unbundle bit_operations_syntax

section \<open>Data model of the Instruction List interpreter (il_interpreter.c)\<close>

text \<open>
  All values of the interpreter are \<open>uint16_t\<close>; they are modelled as 16-bit words, so
  that \<open>+\<close>, \<open>-\<close> and \<open>NOT\<close> wrap exactly as the conversion back to \<open>uint16_t\<close> does.
  The two stack counters are C \<open>int\<close>s and are modelled as mathematical integers; the
  places where the C program would leave the range of \<open>int\<close> or the bounds of an array
  are branches of the model that return a \<open>fault\<close>.
\<close>

type_synonym u16 = "16 word"

datatype fault =
    DivideByZero      \<comment> \<open>\<open>op1 / op2\<close> with \<open>op2 == 0\<close>\<close>
  | SignedOverflow    \<comment> \<open>an \<open>int\<close> computation leaves the range of a 32-bit \<open>int\<close>\<close>
  | OutOfBounds       \<comment> \<open>an array is indexed outside its declared size\<close>
  | NullCallbacks     \<comment> \<open>\<open>mem->get\<close> or \<open>mem->set\<close> through the null pointer\<close>

definition INT_MAX :: int where
  "INT_MAX = 2147483647"

text \<open>
  The memory interface of il_interpreter.h: two callbacks acting on a memory image
  \<open>'m\<close> that belongs to the caller. \<open>get\<close> and \<open>set\<close> are renamed \<open>get_cb\<close> and \<open>set_cb\<close>.
\<close>

record 'm il_memory_callbacks =
  get_cb :: "u16 \<Rightarrow> bool \<Rightarrow> 'm \<Rightarrow> u16 \<times> 'm"
  set_cb :: "u16 \<Rightarrow> u16 \<Rightarrow> bool \<Rightarrow> 'm \<Rightarrow> 'm"

text \<open>A record of the calls made through the memory interface (ghost state).\<close>

datatype mem_call = GetCall u16 bool | SetCall u16 u16 bool

text \<open>One slot of \<open>eval_stack\<close>: \<open>struct { uint16_t command; uint16_t accum; }\<close>.\<close>

record eval_entry =
  command :: u16
  accum_e :: u16

definition EVAL_STACK_MAX_DEPTH :: int where
  "EVAL_STACK_MAX_DEPTH = 20"

definition CALL_STACK_MAX_DEPTH :: int where
  "CALL_STACK_MAX_DEPTH = 20"

text \<open>
  The file-scope variables of il_interpreter.c, together with the caller's memory image
  and the ghost record of memory calls.
\<close>

record 'm il_state =
  mem :: "'m il_memory_callbacks option"
  accum :: u16
  initialised :: bool
  eval_stack :: "eval_entry list"
  eval_stack_top :: int
  call_stack :: "u16 list"
  call_stack_top :: int
  memory :: 'm
  mem_calls :: "mem_call list"

text \<open>The state at program start: static storage is zero-initialised.\<close>

definition static_state :: "'m \<Rightarrow> 'm il_state" where
  "static_state m =
     \<lparr> mem = None, accum = 0, initialised = False,
       eval_stack = replicate 20 \<lparr> command = 0, accum_e = 0 \<rparr>, eval_stack_top = 0,
       call_stack = replicate 20 0, call_stack_top = 0,
       memory = m, mem_calls = [] \<rparr>"

section \<open>Delayed evaluation stack\<close>

definition eval_stack_push :: "u16 \<Rightarrow> u16 \<Rightarrow> 'm il_state \<Rightarrow> fault + 'm il_state" where
  "eval_stack_push cmd a s =
     (let t = eval_stack_top s in
      if t < EVAL_STACK_MAX_DEPTH then
        (if t < 0 then Inl OutOfBounds
         else Inr (s\<lparr> eval_stack := (eval_stack s)[nat t := \<lparr> command = cmd, accum_e = a \<rparr>],
                      eval_stack_top := t + 1 \<rparr>))
      else if t = INT_MAX then Inl SignedOverflow
      else Inr (s\<lparr> eval_stack_top := t + 1 \<rparr>))"

definition eval_stack_pop :: "'m il_state \<Rightarrow> fault + (eval_entry option \<times> 'm il_state)" where
  "eval_stack_pop s =
     (let t = eval_stack_top s in
      if t = 0 \<or> t \<ge> EVAL_STACK_MAX_DEPTH then Inr (None, s)
      else if t - 1 < 0 then Inl OutOfBounds
      else Inr (Some (eval_stack s ! nat (t - 1)), s\<lparr> eval_stack_top := t - 1 \<rparr>))"

section \<open>Call stack\<close>

definition call_stack_push :: "u16 \<Rightarrow> 'm il_state \<Rightarrow> fault + (bool \<times> 'm il_state)" where
  "call_stack_push addr s =
     (let t = call_stack_top s in
      if t \<ge> CALL_STACK_MAX_DEPTH then Inr (False, s)
      else if t < 0 then Inl OutOfBounds
      else Inr (True, s\<lparr> call_stack := (call_stack s)[nat t := addr],
                          call_stack_top := t + 1 \<rparr>))"

definition call_stack_pop :: "'m il_state \<Rightarrow> fault + (u16 option \<times> 'm il_state)" where
  "call_stack_pop s =
     (let t = call_stack_top s in
      if t \<le> 0 then Inr (None, s)
      else if t - 1 \<ge> CALL_STACK_MAX_DEPTH then Inl OutOfBounds
      else Inr (Some (call_stack s ! nat (t - 1)), s\<lparr> call_stack_top := t - 1 \<rparr>))"

section \<open>Interface functions\<close>

definition il_interp_init :: "'m il_memory_callbacks option \<Rightarrow> 'm il_state \<Rightarrow> 'm il_state" where
  "il_interp_init cb s =
     s\<lparr> mem := cb, accum := 0, eval_stack_top := 0, call_stack_top := 0, initialised := True \<rparr>"

definition il_interp_get_accum :: "'m il_state \<Rightarrow> u16" where
  "il_interp_get_accum s = accum s"

text \<open>Calls through \<open>mem->get\<close> and \<open>mem->set\<close>.\<close>

definition mem_get_call :: "u16 \<Rightarrow> bool \<Rightarrow> 'm il_state \<Rightarrow> fault + (u16 \<times> 'm il_state)" where
  "mem_get_call addr invert s =
     (case mem s of
        None \<Rightarrow> Inl NullCallbacks
      | Some cb \<Rightarrow>
          (case get_cb cb addr invert (memory s) of
             (v, m') \<Rightarrow> Inr (v, s\<lparr> memory := m', mem_calls := mem_calls s @ [GetCall addr invert] \<rparr>)))"

definition mem_set_call :: "u16 \<Rightarrow> u16 \<Rightarrow> bool \<Rightarrow> 'm il_state \<Rightarrow> fault + 'm il_state" where
  "mem_set_call addr v invert s =
     (case mem s of
        None \<Rightarrow> Inl NullCallbacks
      | Some cb \<Rightarrow>
          Inr (s\<lparr> memory := set_cb cb addr v invert (memory s),
                  mem_calls := mem_calls s @ [SetCall addr v invert] \<rparr>))"

subsection \<open>Command codes\<close>

named_theorems cmd_defs

definition CMD_LOAD :: u16 where [cmd_defs]: "CMD_LOAD = 1"
definition CMD_STOR :: u16 where [cmd_defs]: "CMD_STOR = 2"
definition CMD_SET :: u16 where [cmd_defs]: "CMD_SET = 3"
definition CMD_RST :: u16 where [cmd_defs]: "CMD_RST = 4"
definition CMD_AND :: u16 where [cmd_defs]: "CMD_AND = 5"
definition CMD_OR :: u16 where [cmd_defs]: "CMD_OR = 6"
definition CMD_XOR :: u16 where [cmd_defs]: "CMD_XOR = 7"
definition CMD_ADD :: u16 where [cmd_defs]: "CMD_ADD = 8"
definition CMD_SUB :: u16 where [cmd_defs]: "CMD_SUB = 9"
definition CMD_MUL :: u16 where [cmd_defs]: "CMD_MUL = 10"
definition CMD_DIV :: u16 where [cmd_defs]: "CMD_DIV = 11"
definition CMD_GT :: u16 where [cmd_defs]: "CMD_GT = 12"
definition CMD_GE :: u16 where [cmd_defs]: "CMD_GE = 13"
definition CMD_EQ :: u16 where [cmd_defs]: "CMD_EQ = 14"
definition CMD_NE :: u16 where [cmd_defs]: "CMD_NE = 15"
definition CMD_LE :: u16 where [cmd_defs]: "CMD_LE = 16"
definition CMD_LT :: u16 where [cmd_defs]: "CMD_LT = 17"
definition CMD_JMP :: u16 where [cmd_defs]: "CMD_JMP = 18"
definition CMD_CAL :: u16 where [cmd_defs]: "CMD_CAL = 19"
definition CMD_RET :: u16 where [cmd_defs]: "CMD_RET = 20"
definition CMD_PAR :: u16 where [cmd_defs]: "CMD_PAR = 21"
definition CMD_NOP :: u16 where [cmd_defs]: "CMD_NOP = 0"
definition CMD_MASK :: u16 where [cmd_defs]: "CMD_MASK = 0x00FF"

definition FLG_IMM :: u16 where [cmd_defs]: "FLG_IMM = 0x1000"
definition FLG_NEG :: u16 where [cmd_defs]: "FLG_NEG = 0x2000"
definition FLG_CND :: u16 where [cmd_defs]: "FLG_CND = 0x4000"
definition FLG_PAR :: u16 where [cmd_defs]: "FLG_PAR = 0x8000"

subsection \<open>Operator evaluation\<close>

text \<open>
  \<open>evaluate_operator\<close>: the operands are promoted to \<open>int\<close>, the result is converted back
  to \<open>uint16_t\<close>. Sums, differences and complements wrap in the conversion; a product
  above \<open>INT_MAX\<close> and a division by zero have no defined value in C.
\<close>

definition bool_u16 :: "bool \<Rightarrow> u16" where
  "bool_u16 b = (if b then 1 else 0)"

definition evaluate_operator ::
  "u16 \<Rightarrow> u16 \<Rightarrow> u16 \<Rightarrow> 'm il_state \<Rightarrow> fault + (u16 \<times> 'm il_state)" where
  "evaluate_operator cmd op1 op2 s =
     (if cmd AND CMD_MASK = CMD_LOAD then
        mem_get_call op2 (FLG_NEG = (cmd AND FLG_NEG)) s
      else if cmd AND CMD_MASK = CMD_STOR then
        (case mem_set_call op2 op1 (FLG_NEG = (cmd AND FLG_NEG)) s of
           Inl f \<Rightarrow> Inl f
         | Inr s' \<Rightarrow> Inr (op1, s'))
      else
        (let op2 = (if cmd AND FLG_NEG \<noteq> 0 then NOT op2 else op2);
             c = cmd AND CMD_MASK
         in if c = CMD_AND then Inr (op1 AND op2, s)
            else if c = CMD_OR then Inr (op1 OR op2, s)
            else if c = CMD_XOR then Inr (op1 XOR op2, s)
            else if c = CMD_ADD then Inr (op1 + op2, s)
            else if c = CMD_SUB then Inr (op1 - op2, s)
            else if c = CMD_MUL then
              (if int (unat op1) * int (unat op2) > INT_MAX then Inl SignedOverflow
               else Inr (op1 * op2, s))
            else if c = CMD_DIV then
              (if op2 = 0 then Inl DivideByZero else Inr (op1 div op2, s))
            else if c = CMD_GT then Inr (bool_u16 (op1 > op2), s)
            else if c = CMD_GE then Inr (bool_u16 (op1 \<ge> op2), s)
            else if c = CMD_EQ then Inr (bool_u16 (op1 = op2), s)
            else if c = CMD_NE then Inr (bool_u16 (op1 \<noteq> op2), s)
            else if c = CMD_LE then Inr (bool_u16 (op1 \<le> op2), s)
            else if c = CMD_LT then Inr (bool_u16 (op1 < op2), s)
            else Inr (0, s)))"

subsection \<open>Executing one program line\<close>

definition is_binary_op :: "u16 \<Rightarrow> bool" where
  "is_binary_op c \<longleftrightarrow>
     c = CMD_AND \<or> c = CMD_OR \<or> c = CMD_XOR \<or> c = CMD_ADD \<or> c = CMD_SUB \<or> c = CMD_MUL \<or>
     c = CMD_DIV \<or> c = CMD_GT \<or> c = CMD_GE \<or> c = CMD_EQ \<or> c = CMD_NE \<or> c = CMD_LE \<or>
     c = CMD_LT"

text \<open>The test of SET and RST: \<open>(!(cmd & FLG_NEG) && accum) || ((cmd & FLG_NEG) && !accum)\<close>.\<close>

definition set_condition :: "u16 \<Rightarrow> u16 \<Rightarrow> bool" where
  "set_condition cmd a \<longleftrightarrow>
     (cmd AND FLG_NEG = 0 \<and> a \<noteq> 0) \<or> (cmd AND FLG_NEG \<noteq> 0 \<and> a = 0)"

text \<open>
  The test that skips JUMP, RET and CALL:
  \<open>(cmd & FLG_CND) && (((cmd & FLG_NEG) && accum) || (!(cmd & FLG_NEG) && !accum))\<close>.
\<close>

definition branch_skipped :: "u16 \<Rightarrow> u16 \<Rightarrow> bool" where
  "branch_skipped cmd a \<longleftrightarrow>
     cmd AND FLG_CND \<noteq> 0 \<and>
     ((cmd AND FLG_NEG \<noteq> 0 \<and> a \<noteq> 0) \<or> (cmd AND FLG_NEG = 0 \<and> a = 0))"

definition il_interp_execute ::
  "u16 \<Rightarrow> u16 \<Rightarrow> u16 \<Rightarrow> 'm il_state \<Rightarrow> fault + (u16 \<times> 'm il_state)" where
  "il_interp_execute cmd location line0 s =
     (let line = line0 + 1;
          c = cmd AND CMD_MASK
      in
      if c = CMD_SET then
        (if set_condition cmd (accum s) then
           (case mem_set_call location 1 False s of
              Inl f \<Rightarrow> Inl f
            | Inr s' \<Rightarrow> Inr (line, s'))
         else Inr (line, s))
      else if c = CMD_RST then
        (if set_condition cmd (accum s) then
           (case mem_set_call location 0 False s of
              Inl f \<Rightarrow> Inl f
            | Inr s' \<Rightarrow> Inr (line, s'))
         else Inr (line, s))
      else if c = CMD_JMP \<or> c = CMD_RET \<or> c = CMD_CAL then
        (if branch_skipped cmd (accum s) then Inr (line, s)
         else if c = CMD_JMP then Inr (location, s)
         else if c = CMD_RET then
           (case call_stack_pop s of
              Inl f \<Rightarrow> Inl f
            | Inr (None, s') \<Rightarrow> Inr (65535, s')
            | Inr (Some l, s') \<Rightarrow> Inr (l, s'))
         else
           (case call_stack_push line s of
              Inl f \<Rightarrow> Inl f
            | Inr (ok, s') \<Rightarrow> Inr (if ok then location else line, s')))
      else if c = CMD_STOR \<or> c = CMD_LOAD then
        (if cmd AND FLG_PAR \<noteq> 0 then
           (case eval_stack_push cmd (accum s) s of
              Inl f \<Rightarrow> Inl f
            | Inr s' \<Rightarrow> Inr (line, s'\<lparr> accum := location \<rparr>))
         else if c = CMD_STOR then
           (case mem_set_call location (accum s) (FLG_NEG = (cmd AND FLG_NEG)) s of
              Inl f \<Rightarrow> Inl f
            | Inr s' \<Rightarrow> Inr (line, s'))
         else if cmd AND FLG_IMM \<noteq> 0 then Inr (line, s\<lparr> accum := location \<rparr>)
         else
           (case mem_get_call location (FLG_NEG = (cmd AND FLG_NEG)) s of
              Inl f \<Rightarrow> Inl f
            | Inr (v, s') \<Rightarrow> Inr (line, s'\<lparr> accum := v \<rparr>)))
      else if is_binary_op c then
        (case (if cmd AND FLG_IMM \<noteq> 0 then Inr (location, s)
               else mem_get_call location False s) of
           Inl f \<Rightarrow> Inl f
         | Inr (v, s1) \<Rightarrow>
             (if cmd AND FLG_PAR \<noteq> 0 then
                (case eval_stack_push cmd (accum s1) s1 of
                   Inl f \<Rightarrow> Inl f
                 | Inr s2 \<Rightarrow> Inr (line, s2\<lparr> accum := v \<rparr>))
              else
                (case evaluate_operator cmd (accum s1) v s1 of
                   Inl f \<Rightarrow> Inl f
                 | Inr (r, s2) \<Rightarrow> Inr (line, s2\<lparr> accum := r \<rparr>))))
      else if c = CMD_PAR then
        (case eval_stack_pop s of
           Inl f \<Rightarrow> Inl f
         | Inr (None, s') \<Rightarrow> Inr (line, s')
         | Inr (Some e, s') \<Rightarrow>
             (case evaluate_operator (command e) (accum_e e) (accum s') s' of
                Inl f \<Rightarrow> Inl f
              | Inr (r, s2) \<Rightarrow> Inr (line, s2\<lparr> accum := r \<rparr>)))
      else Inr (line, s))"

text \<open>
  A sequence of \<open>il_interp_execute\<close> calls, as the driver makes them: each program line
  is a command code with its value, and each call receives the line number that the
  call before it returned.
\<close>

fun execute_lines ::
  "(u16 \<times> u16) list \<Rightarrow> u16 \<Rightarrow> 'm il_state \<Rightarrow> fault + (u16 \<times> 'm il_state)" where
  "execute_lines [] line s = Inr (line, s)"
| "execute_lines ((cmd, v) # rest) line s =
     (case il_interp_execute cmd v line s of
        Inl f \<Rightarrow> Inl f
      | Inr (line', s') \<Rightarrow> execute_lines rest line' s')"

subsection \<open>The call stack as a stack\<close>

text \<open>
  The bounds that \<open>call_stack_push\<close> and \<open>call_stack_pop\<close> maintain, and the entries
  of \<open>call_stack\<close> below the counter: the return lines pushed and not yet popped.
\<close>

definition call_stack_inv :: "'m il_state \<Rightarrow> bool" where
  "call_stack_inv s \<longleftrightarrow>
     int (length (call_stack s)) = CALL_STACK_MAX_DEPTH \<and>
     0 \<le> call_stack_top s \<and> call_stack_top s \<le> CALL_STACK_MAX_DEPTH"

definition call_stack_live :: "'m il_state \<Rightarrow> u16 list" where
  "call_stack_live s = take (nat (call_stack_top s)) (call_stack s)"

section \<open>The demonstration memory (gtk_demo.c)\<close>

text \<open>
  The memory image of the demonstration program is a grid of GTK widgets: a toggle
  button holds a truth value, a spin button holds a number within its range, here
  0 to 65535. \<open>gtk_spin_button_set_value\<close> clamps its argument into the range.
\<close>

definition MEM_SIZE :: int where
  "MEM_SIZE = 26"

record demo_memory =
  bit_memory :: "bool list list"
  word_memory :: "int list list"

definition gtk_spin_button_set_value :: "int \<Rightarrow> int" where
  "gtk_spin_button_set_value v = max 0 (min 65535 v)"

definition demo_memory_ok :: "demo_memory \<Rightarrow> bool" where
  "demo_memory_ok m \<longleftrightarrow>
     length (bit_memory m) = 2 \<and> (\<forall>r \<in> set (bit_memory m). int (length r) = MEM_SIZE) \<and>
     length (word_memory m) = 2 \<and> (\<forall>r \<in> set (word_memory m). int (length r) = MEM_SIZE)"

text \<open>The memory as \<open>activate\<close> creates it: every button off, every spin button 0.\<close>

definition demo_memory_init :: demo_memory where
  "demo_memory_init =
     \<lparr> bit_memory = replicate 2 (replicate 26 False),
       word_memory = replicate 2 (replicate 26 0) \<rparr>"

text \<open>
  \<open>addr_decode\<close> returns \<open>true\<close> and writes \<open>*col\<close> and \<open>*row\<close>, or returns \<open>false\<close> and
  writes nothing: the result is the pair \<open>(col, row)\<close>, or \<open>None\<close>.
\<close>

definition addr_decode :: "u16 \<Rightarrow> (int \<times> int) option" where
  "addr_decode addr =
     (let tcol = uint addr div 10000;
          trow = uint addr mod 10000
      in if trow = 0 \<or> trow > MEM_SIZE then None
         else if tcol = 0 \<or> tcol = 1 then Some (tcol, trow - 1)
         else if tcol = 3 \<or> tcol = 4 then Some (tcol - 1, trow - 1)
         else None)"

definition mem_set :: "u16 \<Rightarrow> u16 \<Rightarrow> bool \<Rightarrow> demo_memory \<Rightarrow> demo_memory" where
  "mem_set addr val invert m =
     (case addr_decode addr of
        None \<Rightarrow> m
      | Some (col, row) \<Rightarrow>
          if col < 2 then
            (let val = (if invert then bool_u16 (val = 0) else val)
             in m\<lparr> bit_memory :=
                    (bit_memory m)[nat col := (bit_memory m ! nat col)[nat row := (val \<noteq> 0)]] \<rparr>)
          else
            (let val = (if invert then NOT val else val)
             in m\<lparr> word_memory :=
                    (word_memory m)[nat (col - 2) :=
                       (word_memory m ! nat (col - 2))[nat row :=
                          gtk_spin_button_set_value (uint val)]] \<rparr>))"

definition mem_get :: "u16 \<Rightarrow> bool \<Rightarrow> demo_memory \<Rightarrow> u16" where
  "mem_get addr invert m =
     (case addr_decode addr of
        None \<Rightarrow> 0
      | Some (col, row) \<Rightarrow>
          if col < 2 then
            (let val = bool_u16 (bit_memory m ! nat col ! nat row)
             in if invert then bool_u16 (val = 0) else val)
          else
            (let val = (word_of_int (word_memory m ! nat (col - 2) ! nat row) :: u16)
             in if invert then NOT val else val))"

text \<open>The callback structure \<open>mc\<close> handed to \<open>il_interp_init\<close>.\<close>

definition mc :: "demo_memory il_memory_callbacks" where
  "mc = \<lparr> get_cb = (\<lambda>addr invert m. (mem_get addr invert m, m)), set_cb = mem_set \<rparr>"

text \<open>
  The state after \<open>prog_init\<close> of the demonstration program, which calls
  \<open>il_interp_init(&mc)\<close> on the freshly created memory.
\<close>

definition prog_init_state :: "demo_memory il_state" where
  "prog_init_state = il_interp_init (Some mc) (static_state demo_memory_init)"

section \<open>Properties of the interpreter\<close>

subsection \<open>What the helper functions leave alone\<close>

lemma case_sum_Inr:
  "(case x of Inl f \<Rightarrow> Inl f | Inr v \<Rightarrow> g v) = Inr r \<longleftrightarrow> (\<exists>v. x = Inr v \<and> g v = Inr r)"
  by (cases x) auto

lemma mem_get_call_frame:
  "mem_get_call a i s = Inr (v, s') \<Longrightarrow>
     call_stack s' = call_stack s \<and> call_stack_top s' = call_stack_top s"
  by (auto simp: mem_get_call_def split: option.splits prod.splits)

lemma mem_set_call_frame:
  "mem_set_call a v i s = Inr s' \<Longrightarrow>
     call_stack s' = call_stack s \<and> call_stack_top s' = call_stack_top s"
  by (auto simp: mem_set_call_def split: option.splits)

lemma eval_stack_push_frame:
  "eval_stack_push c a s = Inr s' \<Longrightarrow>
     call_stack s' = call_stack s \<and> call_stack_top s' = call_stack_top s"
  by (auto simp: eval_stack_push_def Let_def split: if_splits)

lemma eval_stack_pop_frame:
  "eval_stack_pop s = Inr (r, s') \<Longrightarrow>
     call_stack s' = call_stack s \<and> call_stack_top s' = call_stack_top s"
  by (auto simp: eval_stack_pop_def Let_def split: if_splits)

lemma evaluate_operator_frame:
  "evaluate_operator c a b s = Inr (r, s') \<Longrightarrow>
     call_stack s' = call_stack s \<and> call_stack_top s' = call_stack_top s"
  unfolding evaluate_operator_def Let_def
  by (auto split: if_splits sum.splits dest: mem_get_call_frame mem_set_call_frame)


lemma execute_set_rst:
  assumes "cmd AND CMD_MASK = CMD_SET \<or> cmd AND CMD_MASK = CMD_RST"
  shows "il_interp_execute cmd loc line s =
     (if set_condition cmd (accum s) then
        (case mem_set_call loc (if cmd AND CMD_MASK = CMD_SET then 1 else 0) False s of
           Inl f \<Rightarrow> Inl f | Inr s' \<Rightarrow> Inr (line + 1, s'))
      else Inr (line + 1, s))"
  using assms by (auto simp: il_interp_execute_def Let_def cmd_defs split del: if_split cong del: if_weak_cong)

lemma execute_branch:
  assumes "cmd AND CMD_MASK = CMD_JMP \<or> cmd AND CMD_MASK = CMD_RET \<or> cmd AND CMD_MASK = CMD_CAL"
  shows "il_interp_execute cmd loc line s =
     (if branch_skipped cmd (accum s) then Inr (line + 1, s)
      else if cmd AND CMD_MASK = CMD_JMP then Inr (loc, s)
      else if cmd AND CMD_MASK = CMD_RET then
        (case call_stack_pop s of
           Inl f \<Rightarrow> Inl f
         | Inr (None, s') \<Rightarrow> Inr (65535, s')
         | Inr (Some l, s') \<Rightarrow> Inr (l, s'))
      else
        (case call_stack_push (line + 1) s of
           Inl f \<Rightarrow> Inl f
         | Inr (ok, s') \<Rightarrow> Inr (if ok then loc else line + 1, s')))"
  using assms by (auto simp: il_interp_execute_def Let_def cmd_defs split del: if_split cong del: if_weak_cong)

lemma execute_load_stor:
  assumes "cmd AND CMD_MASK = CMD_STOR \<or> cmd AND CMD_MASK = CMD_LOAD"
  shows "il_interp_execute cmd loc line s =
     (if cmd AND FLG_PAR \<noteq> 0 then
        (case eval_stack_push cmd (accum s) s of
           Inl f \<Rightarrow> Inl f
         | Inr s' \<Rightarrow> Inr (line + 1, s'\<lparr> accum := loc \<rparr>))
      else if cmd AND CMD_MASK = CMD_STOR then
        (case mem_set_call loc (accum s) (FLG_NEG = (cmd AND FLG_NEG)) s of
           Inl f \<Rightarrow> Inl f
         | Inr s' \<Rightarrow> Inr (line + 1, s'))
      else if cmd AND FLG_IMM \<noteq> 0 then Inr (line + 1, s\<lparr> accum := loc \<rparr>)
      else
        (case mem_get_call loc (FLG_NEG = (cmd AND FLG_NEG)) s of
           Inl f \<Rightarrow> Inl f
         | Inr (v, s') \<Rightarrow> Inr (line + 1, s'\<lparr> accum := v \<rparr>)))"
  using assms by (auto simp: il_interp_execute_def Let_def cmd_defs split del: if_split cong del: if_weak_cong)

lemma execute_binary:
  assumes "is_binary_op (cmd AND CMD_MASK)"
  shows "il_interp_execute cmd loc line s =
     (case (if cmd AND FLG_IMM \<noteq> 0 then Inr (loc, s) else mem_get_call loc False s) of
        Inl f \<Rightarrow> Inl f
      | Inr (v, s1) \<Rightarrow>
          (if cmd AND FLG_PAR \<noteq> 0 then
             (case eval_stack_push cmd (accum s1) s1 of
                Inl f \<Rightarrow> Inl f
              | Inr s2 \<Rightarrow> Inr (line + 1, s2\<lparr> accum := v \<rparr>))
           else
             (case evaluate_operator cmd (accum s1) v s1 of
                Inl f \<Rightarrow> Inl f
              | Inr (r, s2) \<Rightarrow> Inr (line + 1, s2\<lparr> accum := r \<rparr>))))"
proof -
  from assms have "cmd AND CMD_MASK \<notin> {CMD_SET, CMD_RST, CMD_JMP, CMD_RET, CMD_CAL, CMD_STOR, CMD_LOAD}"
    by (auto simp: is_binary_op_def cmd_defs)
  with assms show ?thesis
    by (simp add: il_interp_execute_def Let_def split del: if_split cong del: if_weak_cong)
qed

lemma execute_par:
  assumes "cmd AND CMD_MASK = CMD_PAR"
  shows "il_interp_execute cmd loc line s =
     (case eval_stack_pop s of
        Inl f \<Rightarrow> Inl f
      | Inr (None, s') \<Rightarrow> Inr (line + 1, s')
      | Inr (Some e, s') \<Rightarrow>
          (case evaluate_operator (command e) (accum_e e) (accum s') s' of
             Inl f \<Rightarrow> Inl f
           | Inr (r, s2) \<Rightarrow> Inr (line + 1, s2\<lparr> accum := r \<rparr>)))"
  using assms by (simp add: il_interp_execute_def Let_def is_binary_op_def cmd_defs split del: if_split cong del: if_weak_cong)

lemma execute_other:
  assumes "cmd AND CMD_MASK = CMD_NOP \<or> CMD_PAR < cmd AND CMD_MASK"
  shows "il_interp_execute cmd loc line s = Inr (line + 1, s)"
proof -
  let ?c = "cmd AND CMD_MASK"
  from assms have "\<not> (?c = CMD_SET \<or> ?c = CMD_RST)"
    and "\<not> (?c = CMD_JMP \<or> ?c = CMD_RET \<or> ?c = CMD_CAL)"
    and "\<not> (?c = CMD_STOR \<or> ?c = CMD_LOAD)"
    and "\<not> is_binary_op ?c" and "?c \<noteq> CMD_PAR"
    by (auto simp: cmd_defs is_binary_op_def)
  then show ?thesis
    by (simp add: il_interp_execute_def Let_def split del: if_split)
qed

lemma execute_default:
  assumes "\<not> (cmd AND CMD_MASK = CMD_SET \<or> cmd AND CMD_MASK = CMD_RST)"
    and "\<not> (cmd AND CMD_MASK = CMD_JMP \<or> cmd AND CMD_MASK = CMD_RET \<or> cmd AND CMD_MASK = CMD_CAL)"
    and "\<not> (cmd AND CMD_MASK = CMD_STOR \<or> cmd AND CMD_MASK = CMD_LOAD)"
    and "\<not> is_binary_op (cmd AND CMD_MASK)"
    and "cmd AND CMD_MASK \<noteq> CMD_PAR"
  shows "il_interp_execute cmd loc line s = Inr (line + 1, s)"
  using assms by (simp add: il_interp_execute_def Let_def split del: if_split cong del: if_weak_cong)

text \<open>
  Every successful \<open>il_interp_execute\<close> either leaves the call stack alone, or is the
  push of a CALL, or is the pop of a RET.
\<close>

lemma execute_branch_call_stack:
  assumes c: "cmd AND CMD_MASK = CMD_JMP \<or> cmd AND CMD_MASK = CMD_RET \<or> cmd AND CMD_MASK = CMD_CAL"
    and ex: "il_interp_execute cmd loc line s = Inr (l', s')"
  shows "(call_stack s' = call_stack s \<and> call_stack_top s' = call_stack_top s) \<or>
         (\<exists>ok. call_stack_push (line + 1) s = Inr (ok, s') \<and> l' = (if ok then loc else line + 1)) \<or>
         (\<exists>r. call_stack_pop s = Inr (r, s') \<and> l' = (case r of None \<Rightarrow> 65535 | Some l \<Rightarrow> l))"
proof -
  note eq = ex [unfolded execute_branch [OF c]]
  consider (skip) "branch_skipped cmd (accum s)"
    | (jmp) "\<not> branch_skipped cmd (accum s)" "cmd AND CMD_MASK = CMD_JMP"
    | (ret) "\<not> branch_skipped cmd (accum s)" "cmd AND CMD_MASK \<noteq> CMD_JMP"
        "cmd AND CMD_MASK = CMD_RET"
    | (cal) "\<not> branch_skipped cmd (accum s)" "cmd AND CMD_MASK \<noteq> CMD_JMP"
        "cmd AND CMD_MASK \<noteq> CMD_RET"
    by blast
  then show ?thesis
  proof cases
    case skip
    with eq have "s' = s" by simp
    then show ?thesis by simp
  next
    case jmp
    with eq have "s' = s" by simp
    then show ?thesis by simp
  next
    case ret
    with eq obtain r where "call_stack_pop s = Inr (r, s')"
      and "l' = (case r of None \<Rightarrow> 65535 | Some l \<Rightarrow> l)"
      by (auto simp: case_sum_Inr split: option.splits)
    then show ?thesis by blast
  next
    case cal
    with eq obtain ok where "call_stack_push (line + 1) s = Inr (ok, s')"
      and "l' = (if ok then loc else line + 1)"
      by (auto simp: case_sum_Inr)
    then show ?thesis by blast
  qed
qed

lemma execute_call_stack_cases:
  assumes ex: "il_interp_execute cmd loc line s = Inr (l', s')"
  shows "(call_stack s' = call_stack s \<and> call_stack_top s' = call_stack_top s) \<or>
         (\<exists>ok. call_stack_push (line + 1) s = Inr (ok, s') \<and> l' = (if ok then loc else line + 1)) \<or>
         (\<exists>r. call_stack_pop s = Inr (r, s') \<and> l' = (case r of None \<Rightarrow> 65535 | Some l \<Rightarrow> l))"
proof -
  let ?c = "cmd AND CMD_MASK"
  let ?same = "call_stack s' = call_stack s \<and> call_stack_top s' = call_stack_top s"
  consider (setrst) "?c = CMD_SET \<or> ?c = CMD_RST"
    | (branch) "?c = CMD_JMP \<or> ?c = CMD_RET \<or> ?c = CMD_CAL"
    | (ldst) "?c = CMD_STOR \<or> ?c = CMD_LOAD"
    | (binop) "is_binary_op ?c"
    | (par) "?c = CMD_PAR"
    | (other) "\<not> (?c = CMD_SET \<or> ?c = CMD_RST)"
        "\<not> (?c = CMD_JMP \<or> ?c = CMD_RET \<or> ?c = CMD_CAL)"
        "\<not> (?c = CMD_STOR \<or> ?c = CMD_LOAD)" "\<not> is_binary_op ?c" "?c \<noteq> CMD_PAR"
    by blast
  then show ?thesis
  proof cases
    case setrst
    from ex have ?same
      unfolding execute_set_rst [OF setrst]
      by (auto simp: case_sum_Inr split: if_splits dest: mem_set_call_frame)
    then show ?thesis by blast
  next
    case branch
    from branch ex show ?thesis by (rule execute_branch_call_stack)
  next
    case ldst
    from ex have ?same
      unfolding execute_load_stor [OF ldst]
      by (auto simp: case_sum_Inr split: if_splits
               dest: mem_set_call_frame mem_get_call_frame eval_stack_push_frame)
    then show ?thesis by blast
  next
    case binop
    from ex have ?same
      unfolding execute_binary [OF binop]
      by (auto simp: case_sum_Inr split: if_splits
               dest!: mem_get_call_frame eval_stack_push_frame evaluate_operator_frame)
    then show ?thesis by blast
  next
    case par
    from ex have ?same
      unfolding execute_par [OF par]
      by (auto simp: case_sum_Inr split: option.splits
               dest!: eval_stack_pop_frame evaluate_operator_frame)
    then show ?thesis by blast
  next
    case other
    from ex show ?thesis
      unfolding execute_default [OF other] by simp
  qed
qed

subsection \<open>The call stack\<close>

lemma call_stack_push_inv:
  assumes "call_stack_inv s"
  shows "\<exists>ok s'. call_stack_push a s = Inr (ok, s') \<and> call_stack_inv s' \<and>
           (ok \<longleftrightarrow> call_stack_top s < CALL_STACK_MAX_DEPTH) \<and>
           call_stack_top s' = (if ok then call_stack_top s + 1 else call_stack_top s) \<and>
           call_stack_live s' = (if ok then call_stack_live s @ [a] else call_stack_live s)"
proof (cases "call_stack_top s < CALL_STACK_MAX_DEPTH")
  case True
  with assms have n: "nat (call_stack_top s) < length (call_stack s)"
    and t: "0 \<le> call_stack_top s"
    unfolding call_stack_inv_def by linarith+
  from t have suc: "nat (call_stack_top s + 1) = Suc (nat (call_stack_top s))" by simp
  from True assms n show ?thesis
    by (auto simp: call_stack_push_def call_stack_inv_def call_stack_live_def Let_def suc
          take_Suc_conv_app_nth)
next
  case False
  with assms show ?thesis
    by (auto simp: call_stack_push_def Let_def)
qed

lemma call_stack_pop_inv:
  assumes "call_stack_inv s"
  shows "\<exists>r s'. call_stack_pop s = Inr (r, s') \<and> call_stack_inv s' \<and>
           (case r of
              None \<Rightarrow> s' = s \<and> call_stack_top s = 0
            | Some v \<Rightarrow> call_stack_top s' = call_stack_top s - 1 \<and>
                         call_stack_live s = call_stack_live s' @ [v])"
proof (cases "call_stack_top s \<le> 0")
  case True
  with assms show ?thesis
    by (simp add: call_stack_pop_def call_stack_inv_def Let_def)
next
  case False
  with assms have n: "nat (call_stack_top s - 1) < length (call_stack s)"
    unfolding call_stack_inv_def by linarith
  from False have suc: "nat (call_stack_top s) = Suc (nat (call_stack_top s - 1))" by simp
  from False assms n show ?thesis
    by (simp add: call_stack_pop_def call_stack_inv_def call_stack_live_def Let_def suc
          take_Suc_conv_app_nth)
qed

lemma call_stack_inv_cong:
  "call_stack s' = call_stack s \<Longrightarrow> call_stack_top s' = call_stack_top s \<Longrightarrow>
     call_stack_inv s' = call_stack_inv s \<and> call_stack_live s' = call_stack_live s"
  by (simp add: call_stack_inv_def call_stack_live_def)

lemma execute_call_stack_inv:
  assumes inv: "call_stack_inv s"
    and ex: "il_interp_execute cmd loc line s = Inr (l', s')"
  shows "call_stack_inv s' \<and>
         (call_stack_live s' = call_stack_live s \<or>
          call_stack_live s' = call_stack_live s @ [line + 1] \<or>
          call_stack_live s = call_stack_live s' @ [l'])"
proof -
  from execute_call_stack_cases [OF ex]
  consider (same) "call_stack s' = call_stack s" "call_stack_top s' = call_stack_top s"
    | (push) ok where "call_stack_push (line + 1) s = Inr (ok, s')"
    | (pop) r where "call_stack_pop s = Inr (r, s')" "l' = (case r of None \<Rightarrow> 65535 | Some l \<Rightarrow> l)"
    by blast
  then show ?thesis
  proof cases
    case same
    with inv show ?thesis using call_stack_inv_cong [of s' s] by simp
  next
    case push
    with call_stack_push_inv [OF inv, of "line + 1"] show ?thesis by auto
  next
    case pop
    with call_stack_pop_inv [OF inv] show ?thesis by (auto split: option.splits)
  qed
qed

lemma execute_branch_total:
  assumes inv: "call_stack_inv s"
    and c: "cmd AND CMD_MASK = CMD_JMP \<or> cmd AND CMD_MASK = CMD_RET \<or> cmd AND CMD_MASK = CMD_CAL"
  shows "\<exists>l' s'. il_interp_execute cmd loc line s = Inr (l', s')"
proof -
  from call_stack_push_inv [OF inv, of "line + 1"] obtain ok s1
    where "call_stack_push (line + 1) s = Inr (ok, s1)" by blast
  moreover from call_stack_pop_inv [OF inv] obtain r s2
    where "call_stack_pop s = Inr (r, s2)" by blast
  ultimately show ?thesis
    unfolding execute_branch [OF c] by (cases r) simp_all
qed

lemma unconditional_not_skipped: "cmd AND FLG_CND = 0 \<Longrightarrow> \<not> branch_skipped cmd a"
  by (simp add: branch_skipped_def)

lemma execute_call_pushes:
  assumes call: "call AND CMD_MASK = CMD_CAL" "call AND FLG_CND = 0"
    and inv: "call_stack_inv s" and room: "call_stack_top s < CALL_STACK_MAX_DEPTH"
  shows "il_interp_execute call T L s =
           Inr (T, s\<lparr> call_stack := (call_stack s)[nat (call_stack_top s) := L + 1],
                       call_stack_top := call_stack_top s + 1 \<rparr>)"
proof -
  from inv have "0 \<le> call_stack_top s" by (simp add: call_stack_inv_def)
  with room call show ?thesis
    by (simp add: execute_branch unconditional_not_skipped call_stack_push_def Let_def cmd_defs)
qed

lemma execute_call_full:
  assumes call: "call AND CMD_MASK = CMD_CAL" "call AND FLG_CND = 0"
    and full: "call_stack_top s = CALL_STACK_MAX_DEPTH"
  shows "il_interp_execute call T L s = Inr (L + 1, s)"
  using assms
  by (simp add: execute_branch unconditional_not_skipped call_stack_push_def Let_def cmd_defs)

lemma execute_ret_pops:
  assumes ret: "ret AND CMD_MASK = CMD_RET" "ret AND FLG_CND = 0"
    and top: "0 < call_stack_top s" "call_stack_top s \<le> CALL_STACK_MAX_DEPTH"
  shows "il_interp_execute ret v l s =
           Inr (call_stack s ! nat (call_stack_top s - 1),
                s\<lparr> call_stack_top := call_stack_top s - 1 \<rparr>)"
  using assms
  by (simp add: execute_branch unconditional_not_skipped call_stack_pop_def Let_def cmd_defs)

lemma nested_calls:
  assumes call: "call AND CMD_MASK = CMD_CAL" "call AND FLG_CND = 0"
  shows "call_stack_inv s \<Longrightarrow>
         call_stack_top s + int (length targets) \<le> CALL_STACK_MAX_DEPTH \<Longrightarrow>
         \<exists>s'. execute_lines (map (Pair call) targets) L s = Inr (last (L # targets), s') \<and>
              call_stack_inv s' \<and>
              call_stack_top s' = call_stack_top s + int (length targets) \<and>
              call_stack_live s' =
                call_stack_live s @ map (\<lambda>l. l + 1) (butlast (L # targets))"
proof (induction targets arbitrary: s L)
  case Nil
  then show ?case by simp
next
  case (Cons t ts)
  let ?s1 = "s\<lparr> call_stack := (call_stack s)[nat (call_stack_top s) := L + 1],
                 call_stack_top := call_stack_top s + 1 \<rparr>"
  from Cons.prems have room: "call_stack_top s < CALL_STACK_MAX_DEPTH" by simp
  have step: "il_interp_execute call t L s = Inr (t, ?s1)"
    using call Cons.prems(1) room by (rule execute_call_pushes)
  from call_stack_push_inv [OF Cons.prems(1), of "L + 1"] room Cons.prems(1)
  have inv1: "call_stack_inv ?s1" and live1: "call_stack_live ?s1 = call_stack_live s @ [L + 1]"
    by (auto simp: call_stack_push_def call_stack_inv_def Let_def)
  have top1: "call_stack_top ?s1 + int (length ts) \<le> CALL_STACK_MAX_DEPTH"
    using Cons.prems(2) by simp
  from Cons.IH [OF inv1 top1, of t] obtain s' where
    run: "execute_lines (map (Pair call) ts) t ?s1 = Inr (last (t # ts), s')"
    and inv': "call_stack_inv s'"
    and top': "call_stack_top s' = call_stack_top ?s1 + int (length ts)"
    and live': "call_stack_live s' =
        call_stack_live ?s1 @ map (\<lambda>l. l + 1) (butlast (t # ts))"
    by blast
  have "execute_lines (map (Pair call) (t # ts)) L s = Inr (last (L # t # ts), s')"
    using step run by simp
  moreover have "call_stack_top s' = call_stack_top s + int (length (t # ts))"
    using top' by simp
  moreover have "call_stack_live s' =
      call_stack_live s @ map (\<lambda>l. l + 1) (butlast (L # t # ts))"
    using live' live1 by simp
  ultimately show ?case using inv' by blast
qed

lemma prog_init_state_call_stack:
  "call_stack prog_init_state = replicate 20 0" "call_stack_top prog_init_state = 0"
  by (simp_all add: prog_init_state_def il_interp_init_def static_state_def)

lemma prog_init_state_inv: "call_stack_inv prog_init_state"
  by (simp add: call_stack_inv_def prog_init_state_call_stack CALL_STACK_MAX_DEPTH_def)

subsection \<open>The evaluation stack\<close>

lemma execute_lines_append:
  "execute_lines (xs @ ys) l s =
     (case execute_lines xs l s of
        Inl f \<Rightarrow> Inl f
      | Inr (l', s') \<Rightarrow> execute_lines ys l' s')"
  by (induction xs arbitrary: l s) (auto split: sum.splits)

lemma execute_open_group:
  assumes "is_binary_op (cmd AND CMD_MASK)" "cmd AND FLG_IMM \<noteq> 0" "cmd AND FLG_PAR \<noteq> 0"
  shows "il_interp_execute cmd v l s =
     (case eval_stack_push cmd (accum s) s of
        Inl f \<Rightarrow> Inl f
      | Inr s2 \<Rightarrow> Inr (l + 1, s2\<lparr> accum := v \<rparr>))"
  using assms by (simp add: execute_binary)

lemma eval_stack_push_below_capacity:
  assumes "0 \<le> eval_stack_top s" "eval_stack_top s < EVAL_STACK_MAX_DEPTH"
  shows "eval_stack_push cmd a s =
     Inr (s\<lparr> eval_stack := (eval_stack s)[nat (eval_stack_top s) := \<lparr> command = cmd, accum_e = a \<rparr>],
              eval_stack_top := eval_stack_top s + 1 \<rparr>)"
  using assms by (simp add: eval_stack_push_def Let_def)

lemma eval_stack_push_at_capacity:
  assumes "eval_stack_top s = EVAL_STACK_MAX_DEPTH"
  shows "eval_stack_push cmd a s = Inr (s\<lparr> eval_stack_top := EVAL_STACK_MAX_DEPTH + 1 \<rparr>)"
  using assms by (simp add: eval_stack_push_def Let_def EVAL_STACK_MAX_DEPTH_def INT_MAX_def)

lemma eval_stack_pop_at_capacity:
  assumes "EVAL_STACK_MAX_DEPTH \<le> eval_stack_top s"
  shows "eval_stack_pop s = Inr (None, s)"
  using assms by (simp add: eval_stack_pop_def Let_def)

lemma eval_stack_pop_in_range:
  assumes "0 < eval_stack_top s" "eval_stack_top s < EVAL_STACK_MAX_DEPTH"
  shows "eval_stack_pop s =
     Inr (Some (eval_stack s ! nat (eval_stack_top s - 1)),
          s\<lparr> eval_stack_top := eval_stack_top s - 1 \<rparr>)"
  using assms by (simp add: eval_stack_pop_def Let_def)

text \<open>A push below depth 19 followed by a pop returns the pushed entry.\<close>

lemma eval_stack_push_pop:
  assumes "0 \<le> eval_stack_top s" "eval_stack_top s < EVAL_STACK_MAX_DEPTH - 1"
    and "int (length (eval_stack s)) = EVAL_STACK_MAX_DEPTH"
  shows "\<exists>s1. eval_stack_push cmd a s = Inr s1 \<and>
              eval_stack_pop s1 = Inr (Some \<lparr> command = cmd, accum_e = a \<rparr>,
                                       s1\<lparr> eval_stack_top := eval_stack_top s \<rparr>)"
proof -
  from assms have n: "nat (eval_stack_top s) < length (eval_stack s)" by linarith
  from assms n show ?thesis
    by (simp add: eval_stack_push_below_capacity eval_stack_pop_in_range)
qed

text \<open>The close of a group on an empty evaluation stack changes nothing.\<close>

lemma close_group_empty:
  assumes "cmd AND CMD_MASK = CMD_PAR" "eval_stack_top s = 0"
  shows "il_interp_execute cmd v l s = Inr (l + 1, s)"
  using assms by (simp add: execute_par eval_stack_pop_def Let_def)

lemma nested_opens:
  assumes op: "is_binary_op (cmd AND CMD_MASK)" "cmd AND FLG_IMM \<noteq> 0" "cmd AND FLG_PAR \<noteq> 0"
  shows "0 \<le> eval_stack_top s \<Longrightarrow>
         eval_stack_top s + int n \<le> EVAL_STACK_MAX_DEPTH \<Longrightarrow>
         \<exists>s'. execute_lines (replicate n (cmd, v)) L s = Inr (L + of_nat n, s') \<and>
              eval_stack_top s' = eval_stack_top s + int n \<and>
              accum s' = (if n = 0 then accum s else v)"
proof (induction n arbitrary: s L)
  case 0
  then show ?case by simp
next
  case (Suc n)
  let ?s1 = "s\<lparr> eval_stack := (eval_stack s)[nat (eval_stack_top s) :=
                   \<lparr> command = cmd, accum_e = accum s \<rparr>],
                 eval_stack_top := eval_stack_top s + 1, accum := v \<rparr>"
  from Suc.prems have room: "eval_stack_top s < EVAL_STACK_MAX_DEPTH" by simp
  have step: "il_interp_execute cmd v L s = Inr (L + 1, ?s1)"
    using Suc.prems(1) room
    by (simp add: execute_open_group [OF op] eval_stack_push_below_capacity)
  have "0 \<le> eval_stack_top ?s1" "eval_stack_top ?s1 + int n \<le> EVAL_STACK_MAX_DEPTH"
    using Suc.prems by simp_all
  from Suc.IH [OF this, of "L + 1"] obtain s' where
    "execute_lines (replicate n (cmd, v)) (L + 1) ?s1 = Inr (L + 1 + of_nat n, s')"
    and "eval_stack_top s' = eval_stack_top ?s1 + int n"
    and "accum s' = (if n = 0 then accum ?s1 else v)"
    by blast
  with step show ?case by (auto simp: add.assoc)
qed

lemma prog_init_state_eval_stack:
  "eval_stack_top prog_init_state = 0" "accum prog_init_state = 0"
  by (simp_all add: prog_init_state_def il_interp_init_def)

lemma add_open_code:
  "is_binary_op ((0x9008 :: u16) AND CMD_MASK)" "(0x9008 :: u16) AND FLG_IMM \<noteq> 0"
  "(0x9008 :: u16) AND FLG_PAR \<noteq> 0" "(0x9008 :: u16) = CMD_ADD OR FLG_IMM OR FLG_PAR"
  by (simp_all add: is_binary_op_def cmd_defs)

lemma twenty_opens:
  "\<exists>s. execute_lines (replicate 20 (0x9008, 1)) 0 prog_init_state = Inr (20, s) \<and>
       eval_stack_top s = 20 \<and> accum s = 1"
  using nested_opens [OF add_open_code(1-3), of prog_init_state 20 1 0]
  by (simp add: prog_init_state_eval_stack EVAL_STACK_MAX_DEPTH_def)

subsection \<open>The demonstration memory\<close>

lemma addr_decode_int:
  fixes x :: int
  shows "(let tcol = x div 10000; trow = x mod 10000
      in if trow = 0 \<or> trow > 26 then None
         else if tcol = 0 \<or> tcol = 1 then Some (tcol, trow - 1)
         else if tcol = 3 \<or> tcol = 4 then Some (tcol - 1, trow - 1)
         else None) =
     (if 1 \<le> x mod 10000 \<and> x mod 10000 \<le> 26 \<and> x div 10000 \<in> {0, 1, 3, 4}
      then Some (if x div 10000 = 0 then 0 else if x div 10000 = 1 then 1
                 else if x div 10000 = 3 then 2 else 3, x mod 10000 - 1)
      else None)"
proof -
  have "0 \<le> x mod 10000" by simp
  then show ?thesis unfolding Let_def by auto
qed

lemma addr_decode_char:
  "addr_decode a =
     (if 1 \<le> uint a mod 10000 \<and> uint a mod 10000 \<le> 26 \<and> uint a div 10000 \<in> {0, 1, 3, 4}
      then Some (if uint a div 10000 = 0 then 0 else if uint a div 10000 = 1 then 1
                 else if uint a div 10000 = 3 then 2 else 3,
                 uint a mod 10000 - 1)
      else None)"
  unfolding addr_decode_def MEM_SIZE_def by (rule addr_decode_int)

lemma addr_decode_range:
  assumes "addr_decode a = Some (col, row)"
  shows "0 \<le> col \<and> col < 4 \<and> 0 \<le> row \<and> row < MEM_SIZE"
  using assms unfolding addr_decode_char MEM_SIZE_def by (auto split: if_splits)

lemma spin_button_u16: "word_of_int (gtk_spin_button_set_value (uint v)) = (v :: u16)"
proof -
  have "uint v < 2 ^ 16" using uint_bounded [of v] by simp
  then have "uint v \<le> 65535" by simp
  moreover have "0 \<le> uint v" by simp
  ultimately have "gtk_spin_button_set_value (uint v) = uint v"
    unfolding gtk_spin_button_set_value_def by (simp only: min_absorb2 max_absorb2)
  then show ?thesis by simp
qed

lemma bool_u16_zero: "bool_u16 b = 0 \<longleftrightarrow> \<not> b"
  by (simp add: bool_u16_def)

lemma bit_round_trip:
  assumes ok: "demo_memory_ok m" and dec: "addr_decode a = Some (col, row)" and c: "col < 2"
  shows "mem_get a i (mem_set a v False m) = (if i then bool_u16 (v = 0) else bool_u16 (v \<noteq> 0))"
proof -
  from addr_decode_range [OF dec] have r: "0 \<le> col" "0 \<le> row" "row < MEM_SIZE" by simp_all
  from ok c r have lc: "nat col < length (bit_memory m)"
    by (simp add: demo_memory_ok_def)
  with ok have "int (length (bit_memory m ! nat col)) = MEM_SIZE"
    by (simp add: demo_memory_ok_def)
  with r have lr: "nat row < length (bit_memory m ! nat col)" by simp
  from lc lr show ?thesis
    using dec c by (simp add: mem_get_def mem_set_def Let_def bool_u16_zero)
qed

lemma word_round_trip:
  assumes ok: "demo_memory_ok m" and dec: "addr_decode a = Some (col, row)" and c: "2 \<le> col"
  shows "mem_get a i (mem_set a v False m) = (if i then NOT v else v)"
proof -
  from addr_decode_range [OF dec] have r: "col < 4" "0 \<le> row" "row < MEM_SIZE" by simp_all
  from ok c r have lc: "nat (col - 2) < length (word_memory m)"
    by (simp add: demo_memory_ok_def)
  with ok have "int (length (word_memory m ! nat (col - 2))) = MEM_SIZE"
    by (simp add: demo_memory_ok_def)
  with r have lr: "nat row < length (word_memory m ! nat (col - 2))" by simp
  from lc lr show ?thesis
    using dec c by (simp add: mem_get_def mem_set_def Let_def spin_button_u16)
qed

lemma demo_memory_init_ok: "demo_memory_ok demo_memory_init"
  by (simp add: demo_memory_ok_def demo_memory_init_def MEM_SIZE_def)

section \<open>Claims about the evaluation stack\<close>

text \<open>
  C1. The claim asks that a push onto an evaluation stack that already holds 20 entries
  stores nothing and leaves the depth counter as it is. \<open>eval_stack_push\<close> stores
  nothing there, but it increments \<open>eval_stack_top\<close> all the same: after
  \<open>il_interp_init\<close>, twenty lines \<open>ADD_I{ 1\<close> bring the counter to 20, and one more
  brings it to 21. (The pairs are the next line and the counter.)
\<close>

theorem eval_stack_overflow_advances_counter:
  "map_sum id (\<lambda>(l, s). (l, eval_stack_top s))
     (execute_lines (replicate 20 (CMD_ADD OR FLG_IMM OR FLG_PAR, 1)) 0 prog_init_state)
     = Inr (20, 20) \<and>
   map_sum id (\<lambda>(l, s). (l, eval_stack_top s))
     (execute_lines (replicate 20 (CMD_ADD OR FLG_IMM OR FLG_PAR, 1) @
                     [(CMD_ADD OR FLG_IMM OR FLG_PAR, 1)]) 0 prog_init_state)
     = Inr (21, 21)"
proof -
  from twenty_opens obtain s where
    run: "execute_lines (replicate 20 (0x9008, 1)) 0 prog_init_state = Inr (20, s)"
    and top: "eval_stack_top s = 20" by blast
  from top have "eval_stack_top s = EVAL_STACK_MAX_DEPTH" by (simp add: EVAL_STACK_MAX_DEPTH_def)
  then have "il_interp_execute 0x9008 1 20 s = Inr (21, s\<lparr> eval_stack_top := 21, accum := 1 \<rparr>)"
    by (simp add: execute_open_group [OF add_open_code(1-3)] eval_stack_push_at_capacity
          EVAL_STACK_MAX_DEPTH_def)
  with run top show ?thesis
    by (simp add: execute_lines_append add_open_code(4) [symmetric])
qed

text \<open>
  C2. The claim asks that \<open>eval_stack_pop\<close> fails only on an empty stack.
  \<open>eval_stack_pop\<close> also returns \<open>false\<close> when \<open>eval_stack_top\<close> is 20 or more: after
  \<open>il_interp_init\<close> and twenty lines \<open>ADD_I{ 1\<close>, which fill the twenty slots, the
  line \<open>}\<close> pops nothing. The counter stays at 20 and the accumulator stays 1, where
  the deferred ADD would have made it 2. (The triple is the next line, the counter and
  the accumulator.)
\<close>

theorem eval_stack_pop_fails_when_full:
  "map_sum id (\<lambda>(l, s). (l, eval_stack_top s, accum s))
     (execute_lines (replicate 20 (CMD_ADD OR FLG_IMM OR FLG_PAR, 1) @ [(CMD_PAR, 0)])
        0 prog_init_state)
     = Inr (21, 20, 1)"
proof -
  from twenty_opens obtain s where
    run: "execute_lines (replicate 20 (0x9008, 1)) 0 prog_init_state = Inr (20, s)"
    and top: "eval_stack_top s = 20" and acc: "accum s = 1" by blast
  from top have "EVAL_STACK_MAX_DEPTH \<le> eval_stack_top s" by (simp add: EVAL_STACK_MAX_DEPTH_def)
  then have "il_interp_execute CMD_PAR 0 20 s = Inr (21, s)"
    by (simp add: execute_par eval_stack_pop_at_capacity cmd_defs)
  with run top acc show ?thesis
    by (simp add: execute_lines_append add_open_code(4) [symmetric])
qed

section \<open>Claims about branching\<close>

text \<open>
  C3. A JUMP with the Conditional and Negate flags set returns its operand as the next
  line when the accumulator is 0 and \<open>line + 1\<close> when the accumulator is not 0; a JUMP
  without the Conditional flag returns its operand. The state is left as it was.
\<close>

theorem jump_conditional_negate:
  assumes "cmd AND CMD_MASK = CMD_JMP"
  shows "(cmd AND FLG_CND \<noteq> 0 \<and> cmd AND FLG_NEG \<noteq> 0 \<longrightarrow>
            il_interp_execute cmd operand line s =
              Inr (if accum s = 0 then operand else line + 1, s)) \<and>
         (cmd AND FLG_CND = 0 \<longrightarrow> il_interp_execute cmd operand line s = Inr (operand, s))"
  using assms by (simp add: il_interp_execute_def Let_def branch_skipped_def cmd_defs)

theorem jump_conditional_negate_witness:
  "(0x6012 :: u16) AND CMD_MASK = CMD_JMP \<and> (0x6012 :: u16) AND FLG_CND \<noteq> 0 \<and>
   (0x6012 :: u16) AND FLG_NEG \<noteq> 0 \<and> accum (static_state ()) = 0 \<and>
   il_interp_execute 0x6012 7 3 (static_state ()) = Inr (7, static_state ())"
proof -
  have h: "(0x6012 :: u16) AND CMD_MASK = CMD_JMP" by (simp add: cmd_defs)
  from jump_conditional_negate [OF h, of 7 3 "static_state ()"] show ?thesis
    by (simp add: cmd_defs static_state_def)
qed

text \<open>
  C4. In a state whose call stack holds at most 19 return lines, an unconditional CALL
  at line \<open>L\<close> with target \<open>T\<close> stores \<open>L + 1\<close> on the call stack and returns \<open>T\<close>; an
  unconditional RET in any later state with that call stack returns \<open>L + 1\<close> and
  restores the depth. With 20 return lines on the stack the CALL changes nothing and
  returns \<open>L + 1\<close>. Twenty nested CALLs from an empty call stack all branch, each to
  its target, and leave the twenty return lines on the stack; the next CALL falls
  through.
\<close>

theorem call_ret_round_trip:
  fixes s s2 :: "'m il_state"
  assumes call: "call AND CMD_MASK = CMD_CAL" "call AND FLG_CND = 0"
    and ret: "ret AND CMD_MASK = CMD_RET" "ret AND FLG_CND = 0"
    and inv: "call_stack_inv s"
  shows "(call_stack_top s \<le> 19 \<longrightarrow>
            il_interp_execute call T L s =
              Inr (T, s\<lparr> call_stack := (call_stack s)[nat (call_stack_top s) := L + 1],
                          call_stack_top := call_stack_top s + 1 \<rparr>) \<and>
            (call_stack s2 = (call_stack s)[nat (call_stack_top s) := L + 1] \<and>
             call_stack_top s2 = call_stack_top s + 1 \<longrightarrow>
               il_interp_execute ret v l s2 =
                 Inr (L + 1, s2\<lparr> call_stack_top := call_stack_top s \<rparr>))) \<and>
         (call_stack_top s = 20 \<longrightarrow> il_interp_execute call T L s = Inr (L + 1, s)) \<and>
         (call_stack_top s = 0 \<and> length targets = 20 \<longrightarrow>
           (\<exists>s'. execute_lines (map (Pair call) targets) L s = Inr (last targets, s') \<and>
                 call_stack_top s' = 20 \<and>
                 call_stack_live s' = map (\<lambda>l. l + 1) (L # butlast targets) \<and>
                 il_interp_execute call T L' s' = Inr (L' + 1, s')))"
proof (intro conjI impI)
  assume le: "call_stack_top s \<le> 19"
  then have room: "call_stack_top s < CALL_STACK_MAX_DEPTH"
    by (simp add: CALL_STACK_MAX_DEPTH_def)
  show "il_interp_execute call T L s =
      Inr (T, s\<lparr> call_stack := (call_stack s)[nat (call_stack_top s) := L + 1],
                  call_stack_top := call_stack_top s + 1 \<rparr>)"
    using call inv room by (rule execute_call_pushes)
  assume s2: "call_stack s2 = (call_stack s)[nat (call_stack_top s) := L + 1] \<and>
      call_stack_top s2 = call_stack_top s + 1"
  from inv room have n: "nat (call_stack_top s) < length (call_stack s)"
    and t0: "0 \<le> call_stack_top s"
    unfolding call_stack_inv_def by linarith+
  from s2 t0 room have "0 < call_stack_top s2" "call_stack_top s2 \<le> CALL_STACK_MAX_DEPTH"
    by simp_all
  from execute_ret_pops [OF ret this, of v l] s2 n
  show "il_interp_execute ret v l s2 = Inr (L + 1, s2\<lparr> call_stack_top := call_stack_top s \<rparr>)"
    by simp
next
  assume "call_stack_top s = 20"
  then have "call_stack_top s = CALL_STACK_MAX_DEPTH" by (simp add: CALL_STACK_MAX_DEPTH_def)
  with call show "il_interp_execute call T L s = Inr (L + 1, s)" by (rule execute_call_full)
next
  assume a: "call_stack_top s = 0 \<and> length targets = 20"
  then have "call_stack_top s + int (length targets) \<le> CALL_STACK_MAX_DEPTH"
    by (simp add: CALL_STACK_MAX_DEPTH_def)
  from nested_calls [OF call inv this, of L] obtain s' where
    run: "execute_lines (map (Pair call) targets) L s = Inr (last (L # targets), s')"
    and top': "call_stack_top s' = call_stack_top s + int (length targets)"
    and live': "call_stack_live s' =
        call_stack_live s @ map (\<lambda>l. l + 1) (butlast (L # targets))"
    by blast
  from a have ne: "targets \<noteq> []" by auto
  from a have "call_stack_live s = []" by (simp add: call_stack_live_def)
  with live' ne have live: "call_stack_live s' = map (\<lambda>l. l + 1) (L # butlast targets)"
    by simp
  from top' a have top: "call_stack_top s' = 20" by simp
  then have "call_stack_top s' = CALL_STACK_MAX_DEPTH" by (simp add: CALL_STACK_MAX_DEPTH_def)
  with call have "il_interp_execute call T L' s' = Inr (L' + 1, s')" by (rule execute_call_full)
  with run ne top live
  show "\<exists>s'. execute_lines (map (Pair call) targets) L s = Inr (last targets, s') \<and>
      call_stack_top s' = 20 \<and>
      call_stack_live s' = map (\<lambda>l. l + 1) (L # butlast targets) \<and>
      il_interp_execute call T L' s' = Inr (L' + 1, s')"
    by auto
qed

theorem call_ret_round_trip_witness:
  "(19 :: u16) AND CMD_MASK = CMD_CAL \<and> (19 :: u16) AND FLG_CND = 0 \<and>
   (20 :: u16) AND CMD_MASK = CMD_RET \<and> (20 :: u16) AND FLG_CND = 0 \<and>
   call_stack_inv prog_init_state \<and> call_stack_top prog_init_state = 0 \<and>
   il_interp_execute 19 7 3 prog_init_state =
     Inr (7, prog_init_state\<lparr> call_stack := (call_stack prog_init_state)[0 := 4],
                               call_stack_top := 1 \<rparr>) \<and>
   il_interp_execute 20 0 7
       (prog_init_state\<lparr> call_stack := (call_stack prog_init_state)[0 := 4],
                          call_stack_top := 1 \<rparr>) =
     Inr (4, prog_init_state\<lparr> call_stack := (call_stack prog_init_state)[0 := 4],
                               call_stack_top := 0 \<rparr>) \<and>
   (\<exists>s'. execute_lines (map (Pair 19) (replicate 20 9)) 3 prog_init_state = Inr (9, s') \<and>
         call_stack_top s' = 20 \<and>
         il_interp_execute 19 7 9 s' = Inr (10, s'))"
proof -
  have h1: "(19 :: u16) AND CMD_MASK = CMD_CAL" and h2: "(19 :: u16) AND FLG_CND = 0"
    and h3: "(20 :: u16) AND CMD_MASK = CMD_RET" and h4: "(20 :: u16) AND FLG_CND = 0"
    by (simp_all add: cmd_defs)
  let ?s1 = "prog_init_state\<lparr> call_stack := (call_stack prog_init_state)[0 := 4],
                               call_stack_top := 1 \<rparr>"
  note rt = call_ret_round_trip [OF h1 h2 h3 h4 prog_init_state_inv,
      where L = 3 and T = 7 and targets = "replicate 20 9" and L' = 9 and ?s2.0 = ?s1
        and v = 0 and l = 7]
  have t0: "call_stack_top prog_init_state = 0"
    by (simp add: prog_init_state_call_stack)
  from rt have a: "il_interp_execute 19 7 3 prog_init_state = Inr (7, ?s1)"
    by (simp add: t0)
  from rt have b: "il_interp_execute 20 0 7 ?s1 = Inr (4, ?s1\<lparr> call_stack_top := 0 \<rparr>)"
    by (simp add: t0)
  from rt have c: "\<exists>s'. execute_lines (map (Pair 19) (replicate 20 9)) 3 prog_init_state = Inr (9, s') \<and>
         call_stack_top s' = 20 \<and> il_interp_execute 19 7 9 s' = Inr (10, s')"
    by (auto simp: t0)
  from h1 h2 h3 h4 prog_init_state_inv t0 a b c show ?thesis
    by (intro conjI) simp_all
qed

text \<open>
  C5. A RET that is not skipped (one without the Conditional flag, or a conditional one
  whose test passes: accumulator not 0, or 0 when Negate is set) on an empty call stack
  returns the line 65535 and leaves the whole state, so the accumulator and the
  evaluation stack, as it was.
\<close>

theorem ret_empty_call_stack:
  assumes "cmd AND CMD_MASK = CMD_RET"
    and "cmd AND FLG_CND = 0 \<or> (if cmd AND FLG_NEG = 0 then accum s \<noteq> 0 else accum s = 0)"
    and "call_stack_top s = 0"
  shows "il_interp_execute cmd operand line s = Inr (65535, s)"
  using assms
  by (auto simp: il_interp_execute_def Let_def branch_skipped_def call_stack_pop_def cmd_defs)

theorem ret_empty_call_stack_witness:
  "(0x6014 :: u16) AND CMD_MASK = CMD_RET \<and> (0x6014 :: u16) AND FLG_NEG \<noteq> 0 \<and>
   accum (static_state ()) = 0 \<and> call_stack_top (static_state ()) = 0 \<and>
   il_interp_execute 0x6014 0 3 (static_state ()) = Inr (65535, static_state ())"
proof -
  have h1: "(0x6014 :: u16) AND CMD_MASK = CMD_RET" by (simp add: cmd_defs)
  have h2: "(0x6014 :: u16) AND FLG_CND = 0 \<or>
    (if (0x6014 :: u16) AND FLG_NEG = 0 then accum (static_state ()) \<noteq> 0
     else accum (static_state ()) = 0)"
    by (simp add: cmd_defs static_state_def)
  have h3: "call_stack_top (static_state ()) = 0" by (simp add: static_state_def)
  from ret_empty_call_stack [OF h1 h2 h3, of 0 3] show ?thesis
    by (simp add: cmd_defs static_state_def)
qed

text \<open>
  C9. \<open>il_interp_init\<close> sets the call-stack counter to 0, so the call stack is empty.
  Every \<open>il_interp_execute\<close> that starts with the counter between 0 and 20 ends with
  it between 0 and 20, and changes the lines held on the call stack in one of three
  ways: not at all, by adding \<open>line + 1\<close> on top (a CALL), or by taking the top one
  off and returning it as the next line (a RET). A JUMP, CALL or RET always returns
  a next line from such a state. Within these bounds
  \<open>call_stack_push\<close> and \<open>call_stack_pop\<close> never leave the array: the push adds its
  argument on top or, at depth 20, changes nothing; the pop takes the top line off or,
  at depth 0, changes nothing. So every line a pop reads was written by a push.
\<close>

theorem call_stack_depth_invariant:
  "call_stack_top (il_interp_init cb s0) = 0 \<and>
   (int (length (call_stack s0)) = CALL_STACK_MAX_DEPTH \<longrightarrow>
      call_stack_inv (il_interp_init cb s0) \<and> call_stack_live (il_interp_init cb s0) = []) \<and>
   (call_stack_inv s \<and> il_interp_execute cmd operand line s = Inr (l', s') \<longrightarrow>
      0 \<le> call_stack_top s' \<and> call_stack_top s' \<le> 20 \<and> call_stack_inv s' \<and>
      (call_stack_live s' = call_stack_live s \<or>
       call_stack_live s' = call_stack_live s @ [line + 1] \<or>
       call_stack_live s = call_stack_live s' @ [l'])) \<and>
   (call_stack_inv s \<and>
    (cmd AND CMD_MASK = CMD_JMP \<or> cmd AND CMD_MASK = CMD_RET \<or> cmd AND CMD_MASK = CMD_CAL) \<longrightarrow>
      (\<exists>l1 s1. il_interp_execute cmd operand line s = Inr (l1, s1))) \<and>
   (call_stack_inv s \<longrightarrow>
      (\<exists>ok s1. call_stack_push a s = Inr (ok, s1) \<and> call_stack_inv s1 \<and>
         call_stack_top s1 = (if ok then call_stack_top s + 1 else call_stack_top s) \<and>
         call_stack_live s1 = (if ok then call_stack_live s @ [a] else call_stack_live s))) \<and>
   (call_stack_inv s \<longrightarrow>
      (\<exists>r s1. call_stack_pop s = Inr (r, s1) \<and> call_stack_inv s1 \<and>
         (case r of
            None \<Rightarrow> s1 = s \<and> call_stack_top s = 0
          | Some v \<Rightarrow> call_stack_top s1 = call_stack_top s - 1 \<and>
                       call_stack_live s = call_stack_live s1 @ [v])))"
proof (intro conjI impI)
  show "call_stack_top (il_interp_init cb s0) = 0"
    by (simp add: il_interp_init_def)
next
  assume "int (length (call_stack s0)) = CALL_STACK_MAX_DEPTH"
  then show "call_stack_inv (il_interp_init cb s0)"
    by (simp add: il_interp_init_def call_stack_inv_def CALL_STACK_MAX_DEPTH_def)
next
  show "call_stack_live (il_interp_init cb s0) = []"
    by (simp add: il_interp_init_def call_stack_live_def)
next
  assume a: "call_stack_inv s \<and> il_interp_execute cmd operand line s = Inr (l', s')"
  then have inv': "call_stack_inv s'" and live: "call_stack_live s' = call_stack_live s \<or>
       call_stack_live s' = call_stack_live s @ [line + 1] \<or>
       call_stack_live s = call_stack_live s' @ [l']"
    using execute_call_stack_inv [of s cmd operand line l' s'] by simp_all
  from inv' show "0 \<le> call_stack_top s'" "call_stack_top s' \<le> 20" "call_stack_inv s'"
    by (simp_all add: call_stack_inv_def CALL_STACK_MAX_DEPTH_def)
  from live show "call_stack_live s' = call_stack_live s \<or>
       call_stack_live s' = call_stack_live s @ [line + 1] \<or>
       call_stack_live s = call_stack_live s' @ [l']" .
next
  assume "call_stack_inv s \<and>
    (cmd AND CMD_MASK = CMD_JMP \<or> cmd AND CMD_MASK = CMD_RET \<or> cmd AND CMD_MASK = CMD_CAL)"
  then show "\<exists>l1 s1. il_interp_execute cmd operand line s = Inr (l1, s1)"
    using execute_branch_total [of s cmd operand line] by simp
next
  assume "call_stack_inv s"
  from call_stack_push_inv [OF this, of a]
  show "\<exists>ok s1. call_stack_push a s = Inr (ok, s1) \<and> call_stack_inv s1 \<and>
         call_stack_top s1 = (if ok then call_stack_top s + 1 else call_stack_top s) \<and>
         call_stack_live s1 = (if ok then call_stack_live s @ [a] else call_stack_live s)"
    by blast
next
  assume "call_stack_inv s"
  then show "\<exists>r s1. call_stack_pop s = Inr (r, s1) \<and> call_stack_inv s1 \<and>
         (case r of
            None \<Rightarrow> s1 = s \<and> call_stack_top s = 0
          | Some v \<Rightarrow> call_stack_top s1 = call_stack_top s - 1 \<and>
                       call_stack_live s = call_stack_live s1 @ [v])"
    by (rule call_stack_pop_inv)
qed

theorem call_stack_depth_invariant_witness:
  "int (length (call_stack (static_state demo_memory_init))) = CALL_STACK_MAX_DEPTH \<and>
   call_stack_inv prog_init_state \<and>
   il_interp_execute 19 7 3 prog_init_state =
     Inr (7, prog_init_state\<lparr> call_stack := (call_stack prog_init_state)[0 := 4],
                               call_stack_top := 1 \<rparr>) \<and>
   call_stack_inv (prog_init_state\<lparr> call_stack := (call_stack prog_init_state)[0 := 4],
                                     call_stack_top := 1 \<rparr>) \<and>
   (\<exists>ok s1. call_stack_push 4 prog_init_state = Inr (ok, s1) \<and> call_stack_inv s1) \<and>
   (\<exists>r s1. call_stack_pop prog_init_state = Inr (r, s1) \<and> call_stack_inv s1)"
proof -
  let ?s1 = "prog_init_state\<lparr> call_stack := (call_stack prog_init_state)[0 := 4],
                               call_stack_top := 1 \<rparr>"
  have len: "int (length (call_stack (static_state demo_memory_init))) = CALL_STACK_MAX_DEPTH"
    by (simp add: static_state_def CALL_STACK_MAX_DEPTH_def)
  have h1: "(19 :: u16) AND CMD_MASK = CMD_CAL" and h2: "(19 :: u16) AND FLG_CND = 0"
    by (simp_all add: cmd_defs)
  have room: "call_stack_top prog_init_state < CALL_STACK_MAX_DEPTH"
    by (simp add: prog_init_state_call_stack CALL_STACK_MAX_DEPTH_def)
  have ex: "il_interp_execute 19 7 3 prog_init_state = Inr (7, ?s1)"
    using execute_call_pushes [OF h1 h2 prog_init_state_inv room, of 7 3]
    by (simp add: prog_init_state_call_stack)
  note inv = call_stack_depth_invariant [where s = prog_init_state and cmd = 19
      and operand = 7 and line = 3 and l' = 7 and s' = ?s1 and a = 4
      and cb = "Some mc" and ?s0.0 = "static_state demo_memory_init"]
  from inv prog_init_state_inv ex have "call_stack_inv ?s1" by blast
  moreover from inv prog_init_state_inv
  have "\<exists>ok s1. call_stack_push 4 prog_init_state = Inr (ok, s1) \<and> call_stack_inv s1"
    by blast
  moreover from inv prog_init_state_inv
  have "\<exists>r s1. call_stack_pop prog_init_state = Inr (r, s1) \<and> call_stack_inv s1"
    by blast
  ultimately show ?thesis using len prog_init_state_inv ex by blast
qed

section \<open>Claims about the operators\<close>

text \<open>
  C6. The claim asks that a DIV whose right-hand operand is 0 has a defined result.
  \<open>evaluate_operator\<close> computes \<open>op1 / op2\<close> without a test of \<open>op2\<close>: the immediate
  division by 0 ends in the fault, in every state and at every line.
\<close>

theorem div_immediate_zero_faults:
  "il_interp_execute (CMD_DIV OR FLG_IMM) 0 line s = Inl DivideByZero"
  by (simp add: il_interp_execute_def Let_def is_binary_op_def evaluate_operator_def cmd_defs)

section \<open>Claims about undefined opcodes\<close>

text \<open>
  C10. A command whose low byte is above 21, the last defined opcode, is executed as
  NOP is: the next line is \<open>line + 1\<close> and the state is unchanged, whatever the flag
  bits and the operand are. The state holds the accumulator, both stacks, the memory
  image and the record of the calls through the memory interface.
\<close>

theorem undefined_opcode_is_nop:
  assumes "CMD_PAR < cmd AND CMD_MASK"
  shows "il_interp_execute cmd operand line s = Inr (line + 1, s) \<and>
         il_interp_execute cmd operand line s = il_interp_execute CMD_NOP operand line s"
proof -
  have "CMD_NOP AND CMD_MASK = CMD_NOP \<or> CMD_PAR < CMD_NOP AND CMD_MASK"
    by (simp add: cmd_defs)
  then have "il_interp_execute CMD_NOP operand line s = Inr (line + 1, s)"
    by (rule execute_other)
  moreover from assms have "il_interp_execute cmd operand line s = Inr (line + 1, s)"
    by (simp add: execute_other)
  ultimately show ?thesis by simp
qed

theorem undefined_opcode_is_nop_witness:
  "CMD_PAR < (0xF0FF :: u16) AND CMD_MASK \<and>
   il_interp_execute 0xF0FF 40001 5 (static_state ()) = Inr (6, static_state ())"
proof -
  have h: "CMD_PAR < (0xF0FF :: u16) AND CMD_MASK" by (simp add: cmd_defs)
  from undefined_opcode_is_nop [OF h, of 40001 5 "static_state ()"] show ?thesis
    using h by simp
qed

section \<open>Claims about the demonstration memory\<close>

text \<open>
  C7. \<open>addr_decode\<close> succeeds exactly on the addresses \<open>a\<close> with
  \<open>1 \<le> a mod 10000 \<le> 26\<close> and \<open>a div 10000\<close> one of 0, 1, 3, 4. It then returns the
  column chosen by \<open>a div 10000\<close> (0 and 1 the bit banks, 3 and 4 the word banks, as
  columns 2 and 3) and the row \<open>a mod 10000 - 1\<close>. The result depends on the address
  alone.
\<close>

theorem addr_decode_correct:
  "addr_decode a =
     (if 1 \<le> uint a mod 10000 \<and> uint a mod 10000 \<le> 26 \<and> uint a div 10000 \<in> {0, 1, 3, 4}
      then Some (if uint a div 10000 = 0 then 0 else if uint a div 10000 = 1 then 1
                 else if uint a div 10000 = 3 then 2 else 3,
                 uint a mod 10000 - 1)
      else None)"
  by (rule addr_decode_char)

theorem addr_decode_correct_witness:
  "addr_decode 40026 = Some (3, 25) \<and> addr_decode 27 = None \<and> addr_decode 20001 = None"
  using addr_decode_correct [of 40026] addr_decode_correct [of 27]
    addr_decode_correct [of 20001]
  by simp

text \<open>
  C8. For an address that \<open>addr_decode\<close> accepts, \<open>mem_get\<close> right after
  \<open>mem_set\<close> of the value \<open>v\<close> without inversion returns, in a bit bank (columns 0 and
  1), 1 if \<open>v\<close> is not 0 and 0 otherwise, and with inversion 1 minus that; in a word
  bank (columns 2 and 3) it returns \<open>v\<close>, and with inversion the 16-bit complement of
  \<open>v\<close>. The memory has its declared size: two rows of 26 cells in each kind of bank.
\<close>

theorem mem_set_get_round_trip:
  assumes "demo_memory_ok m" and "addr_decode a = Some (col, row)"
  shows "(col < 2 \<longrightarrow>
            mem_get a False (mem_set a v False m) = (if v \<noteq> 0 then 1 else 0) \<and>
            mem_get a True (mem_set a v False m) = 1 - (if v \<noteq> 0 then 1 else 0)) \<and>
         (2 \<le> col \<longrightarrow>
            mem_get a False (mem_set a v False m) = v \<and>
            mem_get a True (mem_set a v False m) = NOT v)"
  using bit_round_trip [OF assms] word_round_trip [OF assms]
  by (simp add: bool_u16_def)

theorem mem_set_get_round_trip_witness:
  "demo_memory_ok demo_memory_init \<and> addr_decode 40003 = Some (3, 2) \<and> addr_decode 10002 = Some (1, 1) \<and>
   mem_get 40003 False (mem_set 40003 5 False demo_memory_init) = 5 \<and>
   mem_get 40003 True (mem_set 40003 5 False demo_memory_init) = 65530 \<and>
   mem_get 10002 False (mem_set 10002 5 False demo_memory_init) = 1 \<and>
   mem_get 10002 True (mem_set 10002 5 False demo_memory_init) = 0"
proof -
  have d1: "addr_decode 40003 = Some (3, 2)" by (simp add: addr_decode_def MEM_SIZE_def)
  have d2: "addr_decode 10002 = Some (1, 1)" by (simp add: addr_decode_def MEM_SIZE_def)
  from mem_set_get_round_trip [OF demo_memory_init_ok d1, of 5]
    mem_set_get_round_trip [OF demo_memory_init_ok d2, of 5]
  show ?thesis using demo_memory_init_ok d1 d2 by simp
qed

end
